theory Spec2Isabelle
  imports Complex_Main "HOL-Library.AList"
begin

section \<open>Python values, errors and strings\<close>

text \<open>
  The module \<^verbatim>\<open>tasks.py\<close> holds two functions, \<^verbatim>\<open>task1\<close> and \<^verbatim>\<open>task2\<close>, and
  one global dictionary \<^verbatim>\<open>_cache\<close>. Every exception either function can raise is a
  value of \<open>error\<close>; a function that can raise returns \<open>error + 'a\<close>.
  A Python \<^verbatim>\<open>str\<close> is a \<open>string\<close>: a character is a code point below 256.
  The library functions the module calls (\<^verbatim>\<open>str\<close>, \<^verbatim>\<open>int\<close>, \<^verbatim>\<open>str.strip\<close>,
  \<^verbatim>\<open>io.StringIO\<close>, \<^verbatim>\<open>csv.DictReader\<close>, the division of integers and the format
  \<^verbatim>\<open>.1f\<close>) are modelled as CPython 3.11 and later define them.
\<close>

datatype error =
    KeyMismatch
  | KeyError
  | ValueError
  | TypeError
  | AttributeError
  | OverflowError
  | ZeroDivisionError
  | CsvError

text \<open>The scalars a query dictionary holds (floats are left out), and \<^verbatim>\<open>str(v)\<close> on
  them.\<close>

datatype pyval = PyNone | PyBool bool | PyInt int | PyStr string

definition digit_char :: "nat \<Rightarrow> char" where
  "digit_char d = ''0123456789'' ! d"

fun digits10 :: "nat \<Rightarrow> string" where
  "digits10 n = (if n < 10 then [digit_char n] else digits10 (n div 10) @ [digit_char (n mod 10)])"

declare digits10.simps [simp del]

definition str_int :: "int \<Rightarrow> string" where
  "str_int i = (if i < 0 then CHR ''-'' # digits10 (nat (- i)) else digits10 (nat i))"

fun py_str :: "pyval \<Rightarrow> string" where
  "py_str PyNone = ''None''"
| "py_str (PyBool b) = (if b then ''True'' else ''False'')"
| "py_str (PyInt i) = str_int i"
| "py_str (PyStr s) = s"

text \<open>\<^verbatim>\<open>str.isspace\<close> on the code points below 256, and \<^verbatim>\<open>str.strip\<close>: the left end is
  scanned first, then the right end of what is left.\<close>

definition py_isspace :: "char \<Rightarrow> bool" where
  "py_isspace c = (let n = (of_char c :: nat) in
     (9 \<le> n \<and> n \<le> 13) \<or> (28 \<le> n \<and> n \<le> 32) \<or> n = 133 \<or> n = 160)"

definition py_strip :: "(char \<Rightarrow> bool) \<Rightarrow> string \<Rightarrow> string" where
  "py_strip P s = rev (dropWhile P (rev (dropWhile P s)))"

definition quote_chars :: "char list" where
  "quote_chars = [CHR 0x27, CHR 0x22]"

text \<open>The cleaning of one value, line 33 (and 108):
  \<^verbatim>\<open>v.strip().strip("'\"") if v is not None else v\<close>.\<close>

definition clean_value :: "string option \<Rightarrow> string option" where
  "clean_value v = (case v of None \<Rightarrow> None
     | Some s \<Rightarrow> Some (py_strip (\<lambda>c. c \<in> set quote_chars) (py_strip py_isspace s)))"

text \<open>\<^verbatim>\<open>int(v)\<close> on a row's value: \<^verbatim>\<open>None\<close> raises TypeError; a string is stripped of
  white space, may carry one sign, and is a run of decimal digits in which single
  underscores may stand between digits. The white space \<^verbatim>\<open>int\<close> skips is the C
  locale's and the two spaces above 127; the separators 28 to 31, which \<^verbatim>\<open>strip\<close>
  removes, it does not skip. (The interpreter's configurable limit on the number of
  digits, of \<^verbatim>\<open>int\<close> and of \<^verbatim>\<open>str\<close>, is left out.)\<close>

definition int_isspace :: "char \<Rightarrow> bool" where
  "int_isspace c = (let n = (of_char c :: nat) in
     (9 \<le> n \<and> n \<le> 13) \<or> n = 32 \<or> n = 133 \<or> n = 160)"

definition is_digit :: "char \<Rightarrow> bool" where
  "is_digit c = (let n = (of_char c :: nat) in 48 \<le> n \<and> n \<le> 57)"

fun parse_digits :: "string \<Rightarrow> nat \<Rightarrow> bool \<Rightarrow> nat option" where
  "parse_digits [] acc prev_digit = (if prev_digit then Some acc else None)"
| "parse_digits (c # cs) acc prev_digit =
     (if is_digit c then parse_digits cs (acc * 10 + (of_char c - 48)) True
      else if c = CHR ''_'' \<and> prev_digit then parse_digits cs acc False
      else None)"

definition int_of_str :: "string \<Rightarrow> error + int" where
  "int_of_str s =
     (case py_strip int_isspace s of
        [] \<Rightarrow> Inl ValueError
      | c # cs \<Rightarrow>
          if c = CHR ''-'' then
            (case parse_digits cs 0 False of None \<Rightarrow> Inl ValueError | Some n \<Rightarrow> Inr (- int n))
          else if c = CHR ''+'' then
            (case parse_digits cs 0 False of None \<Rightarrow> Inl ValueError | Some n \<Rightarrow> Inr (int n))
          else
            (case parse_digits (c # cs) 0 False of None \<Rightarrow> Inl ValueError | Some n \<Rightarrow> Inr (int n)))"

definition py_int :: "string option \<Rightarrow> error + int" where
  "py_int v = (case v of None \<Rightarrow> Inl TypeError | Some s \<Rightarrow> int_of_str s)"

section \<open>Reading the table text\<close>

text \<open>\<^verbatim>\<open>StringIO(data)\<close> is iterated line by line: a line ends after each line feed,
  and a last line without one is a line too.\<close>

fun readlines :: "string \<Rightarrow> string \<Rightarrow> string list" where
  "readlines cur [] = (if cur = [] then [] else [cur])"
| "readlines cur (c # cs) =
     (if c = CHR 0x0A then (cur @ [c]) # readlines [] cs else readlines (cur @ [c]) cs)"

text \<open>
  \<^verbatim>\<open>csv.reader\<close> with the default dialect (delimiter comma, quote character the double
  quote, doubled quotes, no escape character, not strict): the state machine of the
  interpreter's reader, one character at a time, with \<open>None\<close> for the end of a line.
\<close>

datatype pstate =
  START_RECORD | START_FIELD | IN_FIELD | IN_QUOTED_FIELD | QUOTE_IN_QUOTED_FIELD | EAT_CRNL

record reader =
  r_state :: pstate
  r_field :: string
  r_fields :: "string list"

definition field_limit :: nat where
  "field_limit = 131072"

definition is_nl :: "char \<Rightarrow> bool" where
  "is_nl c = (c = CHR 0x0A \<or> c = CHR 0x0D)"

definition parse_reset :: reader where
  "parse_reset = \<lparr>r_state = START_RECORD, r_field = [], r_fields = []\<rparr>"

definition parse_save_field :: "reader \<Rightarrow> reader" where
  "parse_save_field r = r\<lparr>r_fields := r_fields r @ [r_field r], r_field := []\<rparr>"

definition parse_add_char :: "reader \<Rightarrow> char \<Rightarrow> pstate \<Rightarrow> error + reader" where
  "parse_add_char r c st =
     (if length (r_field r) \<ge> field_limit then Inl CsvError
      else Inr (r\<lparr>r_field := r_field r @ [c], r_state := st\<rparr>))"

definition end_of_field :: "reader \<Rightarrow> char option \<Rightarrow> reader" where
  "end_of_field r c =
     (parse_save_field r)\<lparr>r_state := (if c = None then START_RECORD else EAT_CRNL)\<rparr>"

definition start_field :: "reader \<Rightarrow> char option \<Rightarrow> error + reader" where
  "start_field r c =
     (case c of
        None \<Rightarrow> Inr (end_of_field r c)
      | Some ch \<Rightarrow>
          if is_nl ch then Inr (end_of_field r c)
          else if ch = CHR 0x22 then Inr (r\<lparr>r_state := IN_QUOTED_FIELD\<rparr>)
          else if ch = CHR '','' then Inr ((parse_save_field r)\<lparr>r_state := START_FIELD\<rparr>)
          else parse_add_char r ch IN_FIELD)"

definition parse_process_char :: "reader \<Rightarrow> char option \<Rightarrow> error + reader" where
  "parse_process_char r c =
     (case r_state r of
        START_RECORD \<Rightarrow>
          (case c of
             None \<Rightarrow> Inr r
           | Some ch \<Rightarrow> if is_nl ch then Inr (r\<lparr>r_state := EAT_CRNL\<rparr>) else start_field r c)
      | START_FIELD \<Rightarrow> start_field r c
      | IN_FIELD \<Rightarrow>
          (case c of
             None \<Rightarrow> Inr (end_of_field r c)
           | Some ch \<Rightarrow>
               if is_nl ch then Inr (end_of_field r c)
               else if ch = CHR '','' then Inr ((parse_save_field r)\<lparr>r_state := START_FIELD\<rparr>)
               else parse_add_char r ch IN_FIELD)
      | IN_QUOTED_FIELD \<Rightarrow>
          (case c of
             None \<Rightarrow> Inr r
           | Some ch \<Rightarrow>
               if ch = CHR 0x22 then Inr (r\<lparr>r_state := QUOTE_IN_QUOTED_FIELD\<rparr>)
               else parse_add_char r ch IN_QUOTED_FIELD)
      | QUOTE_IN_QUOTED_FIELD \<Rightarrow>
          (case c of
             None \<Rightarrow> Inr (end_of_field r c)
           | Some ch \<Rightarrow>
               if ch = CHR 0x22 then parse_add_char r ch IN_QUOTED_FIELD
               else if ch = CHR '','' then Inr ((parse_save_field r)\<lparr>r_state := START_FIELD\<rparr>)
               else if is_nl ch then Inr (end_of_field r c)
               else parse_add_char r ch IN_FIELD)
      | EAT_CRNL \<Rightarrow>
          (case c of
             None \<Rightarrow> Inr (r\<lparr>r_state := START_RECORD\<rparr>)
           | Some ch \<Rightarrow> if is_nl ch then Inr r else Inl CsvError))"

text \<open>One line: its characters, then the end-of-line mark.\<close>

fun process_line :: "reader \<Rightarrow> string \<Rightarrow> error + reader" where
  "process_line r [] = parse_process_char r None"
| "process_line r (c # cs) =
     (case parse_process_char r (Some c) of
        Inl e \<Rightarrow> Inl e
      | Inr r' \<Rightarrow> process_line r' cs)"

text \<open>
  The records the reader yields, in order, up to the end of the input or to the first
  \<^verbatim>\<open>csv.Error\<close> (the second component). A record is complete when a line ends in state
  \<open>START_RECORD\<close>; at the end of the input a pending field or an open quoted field is
  one more record.
\<close>

fun reader_records :: "reader \<Rightarrow> string list \<Rightarrow> string list list \<times> error option" where
  "reader_records r [] =
     (if r_field r \<noteq> [] \<or> r_state r = IN_QUOTED_FIELD
      then ([r_fields (parse_save_field r)], None) else ([], None))"
| "reader_records r (l # ls) =
     (case process_line r l of
        Inl e \<Rightarrow> ([], Some e)
      | Inr r' \<Rightarrow>
          if r_state r' = START_RECORD
          then (case reader_records parse_reset ls of (recs, e) \<Rightarrow> (r_fields r' # recs, e))
          else reader_records r' ls)"

definition csv_records :: "string \<Rightarrow> string list list \<times> error option" where
  "csv_records data = reader_records parse_reset (readlines [] data)"

section \<open>Rows\<close>

text \<open>
  A row is a Python dictionary from column names to values, kept as an association list
  in insertion order and read with \<open>map_of\<close>; a value is a string or \<^verbatim>\<open>None\<close>.
  \<^verbatim>\<open>csv.DictReader\<close> builds \<^verbatim>\<open>dict(zip(fieldnames, row))\<close>; a record longer than the
  header puts the list of surplus fields under the key \<^verbatim>\<open>None\<close> (the second component
  of \<open>make_dict\<close>), a shorter record gets \<^verbatim>\<open>None\<close> for each column it lacks.
\<close>

type_synonym row = "(string \<times> string option) list"

definition make_dict :: "string list \<Rightarrow> string list \<Rightarrow> row \<times> string list option" where
  "make_dict fieldnames rec =
     (let d = fold (\<lambda>(k, v). AList.update k (Some v)) (zip fieldnames rec) [];
          lf = length fieldnames; lr = length rec
      in if lf < lr then (d, Some (drop lf rec))
         else if lf > lr then (fold (\<lambda>k. AList.update k None) (drop lr fieldnames) d, None)
         else (d, None))"

text \<open>The dictionary comprehension of line 33: the surplus list has no \<^verbatim>\<open>strip\<close>, so a
  long record raises AttributeError; every other value is cleaned.\<close>

definition clean_row :: "row \<times> string list option \<Rightarrow> error + row" where
  "clean_row d =
     (case snd d of
        Some rest \<Rightarrow> Inl AttributeError
      | None \<Rightarrow> Inr (map (\<lambda>(k, v). (k, clean_value v)) (fst d)))"

text \<open>The loop of lines 31 to 34 over the records after the header: blank records are
  skipped by the DictReader, an exception ends the loop at once.\<close>

fun clean_rows :: "string list \<Rightarrow> string list list \<Rightarrow> error option \<Rightarrow> error + row list" where
  "clean_rows fieldnames [] err = (case err of None \<Rightarrow> Inr [] | Some e \<Rightarrow> Inl e)"
| "clean_rows fieldnames (rec # recs) err =
     (if rec = [] then clean_rows fieldnames recs err
      else (case clean_row (make_dict fieldnames rec) of
              Inl e \<Rightarrow> Inl e
            | Inr row \<Rightarrow>
                (case clean_rows fieldnames recs err of
                   Inl e \<Rightarrow> Inl e
                 | Inr rows \<Rightarrow> Inr (row # rows))))"

definition parse_rows :: "string \<Rightarrow> error + row list" where
  "parse_rows data =
     (case csv_records data of
        ([], None) \<Rightarrow> Inr []
      | ([], Some e) \<Rightarrow> Inl e
      | (fieldnames # recs, err) \<Rightarrow> clean_rows fieldnames recs err)"

section \<open>The cache\<close>

text \<open>
  \<^verbatim>\<open>_cache\<close>, a dictionary from the table text to its parsed rows. Lines 24 to 36 of
  \<^verbatim>\<open>task1\<close> and lines 99 to 111 of \<^verbatim>\<open>task2\<close> are the same code: a text found in the
  cache gives its stored rows; any other text is parsed, and the rows are stored only
  once the whole loop has ended without an exception.
\<close>

type_synonym cache = "string \<rightharpoonup> row list"

definition load_rows :: "string \<Rightarrow> cache \<Rightarrow> error + (row list \<times> cache)" where
  "load_rows data cache =
     (case cache data of
        Some rows \<Rightarrow> Inr (rows, cache)
      | None \<Rightarrow>
          (case parse_rows data of
             Inl e \<Rightarrow> Inl e
           | Inr rows \<Rightarrow> Inr (rows, cache(data \<mapsto> rows))))"

section \<open>task1: exact-match lookup\<close>

text \<open>
  A query is a dictionary from column names to scalars. Python iterates a set in an
  order of its own; \<open>iter\<close> stands for it: it maps the elements a set is built from to
  the order in which the set is iterated.
\<close>

type_synonym query = "(string \<times> pyval) list"

definition set_iteration :: "(string list \<Rightarrow> string list) \<Rightarrow> bool" where
  "set_iteration iter = (\<forall>xs. set (iter xs) = set xs \<and> distinct (iter xs))"

text \<open>Line 53: \<^verbatim>\<open>all(row[key] == str(search[key]) for key in search_keys)\<close>; a
  subscript with a missing key raises KeyError.\<close>

fun all_equal :: "row \<Rightarrow> query \<Rightarrow> string list \<Rightarrow> error + bool" where
  "all_equal row search [] = Inr True"
| "all_equal row search (key # keys) =
     (case map_of row key of
        None \<Rightarrow> Inl KeyError
      | Some a \<Rightarrow>
          (case map_of search key of
             None \<Rightarrow> Inl KeyError
           | Some b \<Rightarrow> if a = Some (py_str b) then all_equal row search keys else Inr False))"

text \<open>Lines 51 to 58: the first row that matches gives its \<^verbatim>\<open>'value'\<close>.\<close>

fun find_value :: "string list \<Rightarrow> query \<Rightarrow> row list \<Rightarrow> error + string option" where
  "find_value keys search [] = Inr (Some ''-1'')"
| "find_value keys search (row # rows) =
     (case all_equal row search keys of
        Inl e \<Rightarrow> Inl e
      | Inr True \<Rightarrow> (case map_of row ''value'' of None \<Rightarrow> Inl KeyError | Some v \<Rightarrow> Inr v)
      | Inr False \<Rightarrow> find_value keys search rows)"

text \<open>Lines 38 to 58, on the rows.\<close>

definition task1_rows ::
  "(string list \<Rightarrow> string list) \<Rightarrow> query \<Rightarrow> row list \<Rightarrow> error + string option" where
  "task1_rows iter search rows =
     (case rows of
        [] \<Rightarrow> Inr (Some ''-1'')
      | row0 # _ \<Rightarrow>
          (let key_fields = removeAll ''value'' (map fst row0);
               search_keys = map fst search
           in if set search_keys \<noteq> set key_fields then Inl KeyMismatch
              else find_value (iter search_keys) search rows))"

definition task1 ::
  "(string list \<Rightarrow> string list) \<Rightarrow> query \<Rightarrow> string \<Rightarrow> cache
     \<Rightarrow> (error + string option) \<times> cache" where
  "task1 iter search data cache =
     (case load_rows data cache of
        Inl e \<Rightarrow> (Inl e, cache)
      | Inr (rows, cache') \<Rightarrow> (task1_rows iter search rows, cache'))"

section \<open>task2: weighted average\<close>

text \<open>
  \<^verbatim>\<open>total_weighted_value / total_weight\<close> is the true division of two integers: the
  quotient correctly rounded (ties to even) to a binary64 float, OverflowError when that
  is out of range. A float is its sign, and its magnitude \<open>mant * 2 ^ expo\<close>: the
  mantissa has at most 53 bits (it is \<open>2 ^ 53\<close> when rounding carries), the exponent
  is at least -1074, and the rounded quotient is out of range from \<open>2 ^ 1024\<close> on.
\<close>

fun bit_length :: "nat \<Rightarrow> nat" where
  "bit_length n = (if n = 0 then 0 else Suc (bit_length (n div 2)))"

declare bit_length.simps [simp del]

definition round_half_even :: "nat \<Rightarrow> nat \<Rightarrow> nat" where
  "round_half_even n d =
     (let q = n div d; r = n mod d
      in if 2 * r < d then q else if d < 2 * r then q + 1 else if even q then q else q + 1)"

record pyfloat =
  negative :: bool
  mant :: nat
  expo :: int

text \<open>The integer part of the binary logarithm of the quotient \<open>n / d\<close>, from the bit
  lengths of the two integers, and the exponent of the float: the mantissa is scaled to
  53 bits, and to fewer below the normal range.\<close>

definition floor_log2 :: "nat \<Rightarrow> nat \<Rightarrow> int" where
  "floor_log2 n d =
     (let k = int (bit_length n) - int (bit_length d)
      in if d * 2 ^ nat k \<le> n * 2 ^ nat (- k) then k else k - 1)"

definition float_exponent :: "nat \<Rightarrow> nat \<Rightarrow> int" where
  "float_exponent n d = max (floor_log2 n d - 52) (- 1074)"

definition py_truediv :: "int \<Rightarrow> int \<Rightarrow> error + pyfloat" where
  "py_truediv a b =
     (if b = 0 then Inl ZeroDivisionError
      else
        (let neg = ((a < 0) \<noteq> (b < 0)); n = nat \<bar>a\<bar>; d = nat \<bar>b\<bar>
         in if n = 0 then Inr \<lparr>negative = neg, mant = 0, expo = 0\<rparr>
            else
              (let e = float_exponent n d;
                   m = round_half_even (n * 2 ^ nat (- e)) (d * 2 ^ nat e)
               in if 971 < e \<or> (e = 971 \<and> m = 2 ^ 53) then Inl OverflowError
                  else Inr \<lparr>negative = neg, mant = m, expo = e\<rparr>)))"

text \<open>\<^verbatim>\<open>f"{x:.1f}"\<close>: the float's exact value rounded to one decimal, ties to even; the
  sign is kept when the digits are all zero.\<close>

definition format_1f :: "pyfloat \<Rightarrow> string" where
  "format_1f x =
     (let t = round_half_even (10 * mant x * 2 ^ nat (expo x)) (2 ^ nat (- expo x))
      in (if negative x then ''-'' else []) @ digits10 (t div 10) @ ''.'' @ digits10 (t mod 10))"

text \<open>Lines 148 and 149: the division, then the formatting.\<close>

definition average_str :: "int \<Rightarrow> int \<Rightarrow> error + string" where
  "average_str total_weighted_value total_weight =
     (case py_truediv total_weighted_value total_weight of
        Inl e \<Rightarrow> Inl e
      | Inr weighted_avg \<Rightarrow> Inr (format_1f weighted_avg))"

text \<open>Line 121: every value of a query is rendered once.\<close>

definition prepare :: "query \<Rightarrow> (string \<times> string) list" where
  "prepare search = map (\<lambda>(k, v). (k, py_str v)) search"

text \<open>Lines 130 to 134: the key columns are compared in the set's order, up to the
  first difference.\<close>

fun row_match :: "row \<Rightarrow> (string \<times> string) list \<Rightarrow> string list \<Rightarrow> error + bool" where
  "row_match row search [] = Inr True"
| "row_match row search (key # keys) =
     (case map_of row key of
        None \<Rightarrow> Inl KeyError
      | Some a \<Rightarrow>
          (case map_of search key of
             None \<Rightarrow> Inl KeyError
           | Some b \<Rightarrow> if a \<noteq> Some b then Inr False else row_match row search keys))"

definition weight_of :: "int \<Rightarrow> int" where
  "weight_of val = (if val mod 2 = 0 then 20 else 10)"

text \<open>Lines 128 to 141, for one query: the accumulators are
  \<^verbatim>\<open>(total_weighted_value, total_weight)\<close>.\<close>

fun scan_rows ::
  "string list \<Rightarrow> (string \<times> string) list \<Rightarrow> row list \<Rightarrow> int \<times> int \<Rightarrow> error + int \<times> int" where
  "scan_rows key_names search [] acc = Inr acc"
| "scan_rows key_names search (row # rows) acc =
     (case row_match row search key_names of
        Inl e \<Rightarrow> Inl e
      | Inr False \<Rightarrow> scan_rows key_names search rows acc
      | Inr True \<Rightarrow>
          (case map_of row ''value'' of
             None \<Rightarrow> Inl KeyError
           | Some v \<Rightarrow>
               (case py_int v of
                  Inl e \<Rightarrow> Inl e
                | Inr val \<Rightarrow>
                    Inr (fst acc + val * weight_of val, snd acc + weight_of val))))"

text \<open>Lines 127 to 141, over the queries.\<close>

fun scan_queries ::
  "string list \<Rightarrow> (string \<times> string) list list \<Rightarrow> row list \<Rightarrow> int \<times> int \<Rightarrow> error + int \<times> int" where
  "scan_queries key_names [] rows acc = Inr acc"
| "scan_queries key_names (search # rest) rows acc =
     (case scan_rows key_names search rows acc of
        Inl e \<Rightarrow> Inl e
      | Inr acc' \<Rightarrow> scan_queries key_names rest rows acc')"

text \<open>Lines 113 to 149, on the rows.\<close>

definition task2_rows ::
  "(string list \<Rightarrow> string list) \<Rightarrow> query list \<Rightarrow> row list \<Rightarrow> error + string" where
  "task2_rows iter search_list rows =
     (case rows of
        [] \<Rightarrow> Inr ''0.0''
      | row0 # _ \<Rightarrow>
          (let key_names = iter (removeAll ''value'' (map fst row0));
               prepared_search_list = map prepare search_list
           in case scan_queries key_names prepared_search_list rows (0, 0) of
                Inl e \<Rightarrow> Inl e
              | Inr (total_weighted_value, total_weight) \<Rightarrow>
                  if total_weight = 0 then Inr ''0.0''
                  else average_str total_weighted_value total_weight))"

definition task2 ::
  "(string list \<Rightarrow> string list) \<Rightarrow> query list \<Rightarrow> string \<Rightarrow> cache
     \<Rightarrow> (error + string) \<times> cache" where
  "task2 iter search_list data cache =
     (case load_rows data cache of
        Inl e \<Rightarrow> (Inl e, cache)
      | Inr (rows, cache') \<Rightarrow> (task2_rows iter search_list rows, cache'))"

section \<open>Notions the properties are stated with\<close>

text \<open>The cache holds, for each text it knows, the rows parsed from that text: both
  functions keep this (see \<open>load_rows_parsed\<close>).\<close>

definition cache_ok :: "cache \<Rightarrow> bool" where
  "cache_ok cache = (\<forall>d rows. cache d = Some rows \<longrightarrow> parse_rows d = Inr rows)"

text \<open>The key columns of a table: its schema (the first row's keys) without
  \<^verbatim>\<open>'value'\<close>.\<close>

definition key_columns :: "row list \<Rightarrow> string list" where
  "key_columns rows = removeAll ''value'' (map fst (hd rows))"

text \<open>A row matches a query on a list of columns when, for each of them, the query has
  a value and the row stores the string that \<^verbatim>\<open>str\<close> renders that value to.\<close>

definition spec_matches :: "string list \<Rightarrow> row \<Rightarrow> query \<Rightarrow> bool" where
  "spec_matches keys row search =
     (\<forall>k\<in>set keys.
        case map_of search k of
          None \<Rightarrow> False
        | Some v \<Rightarrow> map_of row k = Some (Some (py_str v)))"

definition first_match :: "string list \<Rightarrow> row list \<Rightarrow> query \<Rightarrow> row option" where
  "first_match keys rows search = find (\<lambda>row. spec_matches keys row search) rows"

text \<open>A process is a sequence of calls of the two functions on one cache; \<open>answer\<close> is
  what a call returns when its rows are given.\<close>

datatype call = Task1 query string | Task2 "query list" string

datatype outcome = Out1 "error + string option" | Out2 "error + string"

fun text_of :: "call \<Rightarrow> string" where
  "text_of (Task1 search data) = data"
| "text_of (Task2 search_list data) = data"

fun run_call :: "(string list \<Rightarrow> string list) \<Rightarrow> call \<Rightarrow> cache \<Rightarrow> outcome \<times> cache" where
  "run_call iter (Task1 search data) cache =
     (case task1 iter search data cache of (r, cache') \<Rightarrow> (Out1 r, cache'))"
| "run_call iter (Task2 search_list data) cache =
     (case task2 iter search_list data cache of (r, cache') \<Rightarrow> (Out2 r, cache'))"

fun run :: "(string list \<Rightarrow> string list) \<Rightarrow> call list \<Rightarrow> cache \<Rightarrow> outcome list \<times> cache" where
  "run iter [] cache = ([], cache)"
| "run iter (c # cs) cache =
     (case run_call iter c cache of
        (out, cache') \<Rightarrow> (case run iter cs cache' of (outs, cache'') \<Rightarrow> (out # outs, cache'')))"

fun answer :: "(string list \<Rightarrow> string list) \<Rightarrow> call \<Rightarrow> row list \<Rightarrow> outcome" where
  "answer iter (Task1 search data) rows = Out1 (task1_rows iter search rows)"
| "answer iter (Task2 search_list data) rows = Out2 (task2_rows iter search_list rows)"

text \<open>A string is stripped of a class of characters when neither end is in the class.\<close>

definition stripped :: "(char \<Rightarrow> bool) \<Rightarrow> string \<Rightarrow> bool" where
  "stripped P t = (t = [] \<or> (\<not> P (hd t) \<and> \<not> P (last t)))"

definition is_quote :: "char \<Rightarrow> bool" where
  "is_quote c = (c \<in> set quote_chars)"

text \<open>The row that lines 31 to 34 make of one record.\<close>

definition dict_row :: "string list \<Rightarrow> string list \<Rightarrow> row" where
  "dict_row fieldnames rec = map (\<lambda>(k, v). (k, clean_value v)) (fst (make_dict fieldnames rec))"

text \<open>
  The weighted average as the specification words it: each query contributes the
  integer of its first matching row, if it has one; an even integer has weight 20, an odd
  one weight 10; the result is the sum of the weighted integers over the sum of the
  weights, and \<^verbatim>\<open>'0.0'\<close> when that is zero.
\<close>

fun matched_values :: "string list \<Rightarrow> row list \<Rightarrow> query list \<Rightarrow> error + int list" where
  "matched_values keys rows [] = Inr []"
| "matched_values keys rows (search # rest) =
     (case first_match keys rows search of
        None \<Rightarrow> matched_values keys rows rest
      | Some row \<Rightarrow>
          (case py_int (the (map_of row ''value'')) of
             Inl e \<Rightarrow> Inl e
           | Inr val \<Rightarrow>
               (case matched_values keys rows rest of
                  Inl e \<Rightarrow> Inl e
                | Inr vals \<Rightarrow> Inr (val # vals))))"

definition spec_weight :: "int \<Rightarrow> int" where
  "spec_weight val = (if even val then 20 else 10)"

definition spec_average :: "string list \<Rightarrow> query list \<Rightarrow> row list \<Rightarrow> error + string" where
  "spec_average keys search_list rows =
     (case matched_values keys rows search_list of
        Inl e \<Rightarrow> Inl e
      | Inr vals \<Rightarrow>
          (let total = sum_list (map (\<lambda>val. val * spec_weight val) vals);
               weight_total = sum_list (map spec_weight vals)
           in if weight_total = 0 then Inr ''0.0'' else average_str total weight_total))"


section \<open>Facts about the parser and the scans\<close>

subsection \<open>Every parsed row has the header's keys\<close>

lemma keys_fold_update:
  "fst ` set (fold (\<lambda>(k, v). AList.update k (f v)) kvs al) = fst ` set kvs \<union> fst ` set al"
proof (induction kvs arbitrary: al)
  case Nil
  then show ?case by simp
next
  case (Cons kv kvs)
  obtain k v where kv: "kv = (k, v)" by (cases kv)
  have "fst ` set (AList.update k (f v) al) = insert k (fst ` set al)"
    using dom_update [of k "f v" al] by (simp add: dom_map_of_conv_image_fst)
  with Cons.IH [of "AList.update k (f v) al"] kv show ?case by auto
qed

lemma keys_fold_update_const:
  "fst ` set (fold (\<lambda>k. AList.update k c) ks al) = set ks \<union> fst ` set al"
proof (induction ks arbitrary: al)
  case Nil
  then show ?case by simp
next
  case (Cons k ks)
  have "fst ` set (AList.update k c al) = insert k (fst ` set al)"
    using dom_update [of k c al] by (simp add: dom_map_of_conv_image_fst)
  with Cons.IH [of "AList.update k c al"] show ?case by auto
qed

lemma fst_set_zip_take:
  "fst ` set (zip xs ys) = set (take (length ys) xs)"
proof -
  have "map fst (zip xs ys) = take (length ys) xs"
    by (induction xs arbitrary: ys) (auto simp: take_Cons' split: list.splits nat.splits, (case_tac ys; simp)+)
  then show ?thesis by (metis set_map)
qed

lemma keys_make_dict:
  assumes "snd (make_dict fieldnames rec) = None"
  shows "fst ` set (fst (make_dict fieldnames rec)) = set fieldnames"
proof -
  from assms have le: "length rec \<le> length fieldnames"
    by (auto simp: make_dict_def Let_def split: if_splits)
  have z: "fst ` set (zip fieldnames rec) = set (take (length rec) fieldnames)"
    by (rule fst_set_zip_take)
  show ?thesis
  proof (cases "length rec < length fieldnames")
    case True
    then have "fst ` set (fst (make_dict fieldnames rec)) =
        set (drop (length rec) fieldnames) \<union> set (take (length rec) fieldnames)"
      by (simp add: make_dict_def Let_def keys_fold_update_const keys_fold_update z)
    also have "\<dots> = set fieldnames"
      by (metis append_take_drop_id set_append sup_commute)
    finally show ?thesis .
  next
    case False
    with le have eq: "length rec = length fieldnames" by simp
    then show ?thesis
      by (simp add: make_dict_def Let_def keys_fold_update z)
  qed
qed

lemma keys_clean_row:
  "clean_row d = Inr row \<Longrightarrow> fst ` set row = fst ` set (fst d) \<and> snd d = None"
  by (auto simp: clean_row_def image_iff split: option.splits) force+

lemma keys_clean_rows:
  "clean_rows fieldnames recs err = Inr rows \<Longrightarrow> row \<in> set rows \<Longrightarrow> fst ` set row = set fieldnames"
proof (induction recs arbitrary: rows)
  case Nil
  then show ?case by (simp split: option.splits)
next
  case (Cons rec recs)
  show ?case
  proof (cases "rec = []")
    case True
    with Cons show ?thesis by simp
  next
    case False
    with Cons.prems(1) obtain r rs where
      r: "clean_row (make_dict fieldnames rec) = Inr r" and
      rs: "clean_rows fieldnames recs err = Inr rs" and rows: "rows = r # rs"
      by (auto split: sum.splits)
    from keys_clean_row [OF r] keys_make_dict have "fst ` set r = set fieldnames" by simp
    with Cons.IH [OF rs] Cons.prems(2) rows show ?thesis by auto
  qed
qed

lemma keys_parse_rows:
  assumes "parse_rows data = Inr rows" and "row \<in> set rows"
  shows "fst ` set row = fst ` set (hd rows)"
proof -
  from assms obtain fieldnames recs err where
    "clean_rows fieldnames recs err = Inr rows"
    by (auto simp: parse_rows_def split: prod.splits list.splits option.splits)
  from keys_clean_rows [OF this] assms(2) have "\<forall>r\<in>set rows. fst ` set r = set fieldnames"
    by blast
  moreover from assms(2) have "hd rows \<in> set rows" by (cases rows) auto
  ultimately show ?thesis using assms(2) by simp
qed

subsection \<open>The lookup on a parsed table\<close>

lemma load_rows_parsed:
  assumes "cache_ok cache" and "parse_rows data = Inr rows"
  shows "\<exists>cache'. load_rows data cache = Inr (rows, cache') \<and> cache' data = Some rows \<and> cache_ok cache'"
proof (cases "cache data")
  case None
  with assms show ?thesis by (auto simp: load_rows_def cache_ok_def)
next
  case (Some rows')
  with assms have "rows' = rows" by (auto simp: cache_ok_def)
  with Some assms show ?thesis by (simp add: load_rows_def)
qed

lemma map_of_has_key: "k \<in> fst ` set al \<Longrightarrow> \<exists>v. map_of al k = Some v"
  by (metis domD dom_map_of_conv_image_fst)

lemma all_equal_spec:
  assumes "set keys \<subseteq> fst ` set row" and "set keys \<subseteq> fst ` set search"
  shows "all_equal row search keys = Inr (spec_matches keys row search)"
  using assms
proof (induction keys)
  case Nil
  then show ?case by (simp add: spec_matches_def)
next
  case (Cons k keys)
  from Cons.prems obtain a b where a: "map_of row k = Some a" and b: "map_of search k = Some b"
    using map_of_has_key [of k row] map_of_has_key [of k search] by auto
  from Cons have IH: "all_equal row search keys = Inr (spec_matches keys row search)" by simp
  show ?case using a b IH by (auto simp: spec_matches_def)
qed

lemma find_value_spec:
  assumes "\<forall>row\<in>set rows. set keys \<subseteq> fst ` set row \<and> ''value'' \<in> fst ` set row"
      and "set keys \<subseteq> fst ` set search"
  shows "find_value keys search rows =
     (case first_match keys rows search of
        None \<Rightarrow> Inr (Some ''-1'')
      | Some row \<Rightarrow> Inr (the (map_of row ''value'')))"
  using assms
proof (induction rows)
  case Nil
  then show ?case by (simp add: first_match_def)
next
  case (Cons row rows)
  from Cons.prems have eq: "all_equal row search keys = Inr (spec_matches keys row search)"
    by (intro all_equal_spec) auto
  from Cons.prems obtain v where v: "map_of row ''value'' = Some v"
    using map_of_has_key [of "''value''" row] by auto
  from Cons have IH: "find_value keys search rows =
     (case first_match keys rows search of
        None \<Rightarrow> Inr (Some ''-1'')
      | Some row \<Rightarrow> Inr (the (map_of row ''value'')))" by simp
  show ?case using eq v IH by (simp add: first_match_def)
qed

lemma first_match_cong_set:
  "set ks = set ks' \<Longrightarrow> first_match ks rows search = first_match ks' rows search"
  by (simp add: first_match_def spec_matches_def)

lemma task1_rows_spec:
  assumes it: "set_iteration iter" and p: "parse_rows data = Inr rows" and ne: "rows \<noteq> []"
      and keys: "set (map fst search) = set (key_columns rows)"
      and val: "''value'' \<in> set (map fst (hd rows))"
  shows "task1_rows iter search rows =
     (case first_match (key_columns rows) rows search of
        None \<Rightarrow> Inr (Some ''-1'')
      | Some row \<Rightarrow> Inr (the (map_of row ''value'')))"
proof -
  from ne obtain row0 rest where rows: "rows = row0 # rest" by (cases rows) auto
  have same: "\<forall>row\<in>set rows. fst ` set row = fst ` set (hd rows)"
    using keys_parse_rows [OF p] by blast
  have si: "set (iter (map fst search)) = set (key_columns rows)"
    using it keys by (simp add: set_iteration_def)
  have sub: "set (key_columns rows) \<subseteq> fst ` set (hd rows)"
    by (auto simp: key_columns_def)
  have 1: "\<forall>row\<in>set rows. set (iter (map fst search)) \<subseteq> fst ` set row \<and> ''value'' \<in> fst ` set row"
    using same si sub val by auto
  have 2: "set (iter (map fst search)) \<subseteq> fst ` set search"
    using it by (simp add: set_iteration_def)
  have "task1_rows iter search rows = find_value (iter (map fst search)) search rows"
    using keys rows by (simp add: task1_rows_def key_columns_def)
  also have "\<dots> = (case first_match (iter (map fst search)) rows search of
        None \<Rightarrow> Inr (Some ''-1'')
      | Some row \<Rightarrow> Inr (the (map_of row ''value'')))"
    by (rule find_value_spec [OF 1 2])
  also have "first_match (iter (map fst search)) rows search = first_match (key_columns rows) rows search"
    by (rule first_match_cong_set [OF si])
  finally show ?thesis .
qed

subsection \<open>Evaluation on concrete inputs\<close>

lemmas parse_eval = csv_records_def parse_reset_def parse_process_char_def start_field_def
  parse_add_char_def end_of_field_def parse_save_field_def is_nl_def field_limit_def parse_rows_def
  make_dict_def clean_row_def clean_value_def py_strip_def py_isspace_def quote_chars_def

lemma set_iteration_remdups: "set_iteration remdups"
  by (simp add: set_iteration_def)

lemma cache_ok_empty: "cache_ok Map.empty"
  by (simp add: cache_ok_def)

lemma example_rows:
  "parse_rows ''side,currency,value\<newline>IN,PLN,1\<newline>IN,EUR,2\<newline>OUT,ANY,3'' =
     Inr [[(''side'', Some ''IN''), (''currency'', Some ''PLN''), (''value'', Some ''1'')],
          [(''side'', Some ''IN''), (''currency'', Some ''EUR''), (''value'', Some ''2'')],
          [(''side'', Some ''OUT''), (''currency'', Some ''ANY''), (''value'', Some ''3'')]]"
  by (simp add: parse_eval)

lemma average_350_30: "average_str 350 30 = Inr ''11.7''"
proof -
  have e: "float_exponent 350 30 = - 49"
    by (simp add: float_exponent_def floor_log2_def bit_length.simps)
  have m: "round_half_even 197032483697459200 30 = 6567749456581973"
    by (simp add: round_half_even_def)
  have t: "round_half_even 65677494565819730 562949953421312 = 117"
    by (simp add: round_half_even_def)
  have d: "digits10 11 = ''11''" "digits10 7 = ''7''"
    by (simp_all add: digits10.simps digit_char_def)
  have "py_truediv 350 30 = Inr \<lparr>negative = False, mant = 6567749456581973, expo = - 49\<rparr>"
    by (simp add: py_truediv_def Let_def e m)
  then show ?thesis
    by (simp add: average_str_def format_1f_def Let_def t d)
qed

lemma average_200_20: "average_str 200 20 = Inr ''10.0''"
proof -
  have e: "float_exponent 200 20 = - 49"
    by (simp add: float_exponent_def floor_log2_def bit_length.simps)
  have m: "round_half_even 112589990684262400 20 = 5629499534213120"
    by (simp add: round_half_even_def)
  have t: "round_half_even 56294995342131200 562949953421312 = 100"
    by (simp add: round_half_even_def)
  have d: "digits10 10 = ''10''" "digits10 0 = ''0''"
    by (simp_all add: digits10.simps digit_char_def)
  have "py_truediv 200 20 = Inr \<lparr>negative = False, mant = 5629499534213120, expo = - 49\<rparr>"
    by (simp add: py_truediv_def Let_def e m)
  then show ?thesis
    by (simp add: average_str_def format_1f_def Let_def t d)
qed

subsection \<open>The cache over a sequence of calls\<close>

lemma load_rows_keeps:
  assumes "load_rows data cache = Inr (rows', cache')" and "cache d = Some rows"
  shows "cache' d = Some rows"
  using assms by (auto simp: load_rows_def split: option.splits sum.splits)

lemma run_call_keeps:
  assumes "cache d = Some rows"
  shows "snd (run_call iter c cache) d = Some rows"
proof (cases c)
  case (Task1 search data)
  show ?thesis
  proof (cases "load_rows data cache")
    case (Inl e)
    with Task1 assms show ?thesis by (simp add: task1_def)
  next
    case (Inr p)
    then obtain rows' cache' where p: "load_rows data cache = Inr (rows', cache')" by (cases p) auto
    with Task1 load_rows_keeps [OF p assms] show ?thesis by (simp add: task1_def)
  qed
next
  case (Task2 search_list data)
  show ?thesis
  proof (cases "load_rows data cache")
    case (Inl e)
    with Task2 assms show ?thesis by (simp add: task2_def)
  next
    case (Inr p)
    then obtain rows' cache' where p: "load_rows data cache = Inr (rows', cache')" by (cases p) auto
    with Task2 load_rows_keeps [OF p assms] show ?thesis by (simp add: task2_def)
  qed
qed

lemma run_call_hit:
  assumes "cache (text_of c) = Some rows"
  shows "run_call iter c cache = (answer iter c rows, cache)"
  using assms by (cases c) (simp_all add: task1_def task2_def load_rows_def)

lemma run_Cons:
  "run iter (c # cs) cache =
     (fst (run_call iter c cache) # fst (run iter cs (snd (run_call iter c cache))),
      snd (run iter cs (snd (run_call iter c cache))))"
  by (simp split: prod.splits)

lemma run_keeps:
  "cache d = Some rows \<Longrightarrow> snd (run iter calls cache) d = Some rows"
proof (induction calls arbitrary: cache)
  case Nil
  then show ?case by simp
next
  case (Cons c cs)
  from Cons.prems have "snd (run_call iter c cache) d = Some rows"
    by (rule run_call_keeps)
  then have "snd (run iter cs (snd (run_call iter c cache))) d = Some rows"
    by (rule Cons.IH)
  then show ?case by (simp only: run_Cons snd_conv)
qed

lemma run_hits:
  "cache d = Some rows \<Longrightarrow> i < length calls \<Longrightarrow> text_of (calls ! i) = d \<Longrightarrow>
     fst (run iter calls cache) ! i = answer iter (calls ! i) rows"
proof (induction calls arbitrary: cache i)
  case Nil
  then show ?case by simp
next
  case (Cons c cs)
  have keep: "snd (run_call iter c cache) d = Some rows"
    using Cons.prems(1) by (rule run_call_keeps)
  show ?case
  proof (cases i)
    case 0
    with Cons.prems run_call_hit [of cache c rows iter] show ?thesis
      by (simp add: run_Cons del: run.simps)
  next
    case (Suc j)
    with Cons.prems have "fst (run iter cs (snd (run_call iter c cache))) ! j = answer iter (cs ! j) rows"
      using Cons.IH [where cache = "snd (run_call iter c cache)" and i = j] keep by simp
    with Suc show ?thesis by (simp add: run_Cons del: run.simps)
  qed
qed

lemma run_call_first:
  assumes "cache (text_of c) = None" and "parse_rows (text_of c) = Inr rows"
  shows "run_call iter c cache = (answer iter c rows, cache(text_of c \<mapsto> rows))"
  using assms by (cases c) (simp_all add: task1_def task2_def load_rows_def)

lemma small_rows:
  "parse_rows ''a,value\<newline>1,10'' = Inr [[(''a'', Some ''1''), (''value'', Some ''10'')]]"
  by (simp add: parse_eval)

lemmas int_eval = py_int_def int_of_str_def py_strip_def py_isspace_def int_isspace_def is_digit_def
  weight_of_def

lemmas str_eval = str_int_def digits10.simps digit_char_def

lemma header_only_rows: "parse_rows ''side,currency,value\<newline>'' = Inr []"
  by (simp add: parse_eval)

subsection \<open>What strip leaves\<close>

lemma py_strip_decomp:
  "\<exists>pre suf. s = pre @ py_strip P s @ suf \<and> (\<forall>c\<in>set pre. P c) \<and> (\<forall>c\<in>set suf. P c)"
proof -
  let ?t = "dropWhile P s"
  let ?suf = "rev (takeWhile P (rev ?t))"
  have 1: "takeWhile P s @ ?t = s" by (rule takeWhile_dropWhile_id)
  have "py_strip P s @ ?suf = rev (takeWhile P (rev ?t) @ dropWhile P (rev ?t))"
    by (simp only: py_strip_def rev_append)
  also have "\<dots> = rev (rev ?t)" by (simp only: takeWhile_dropWhile_id)
  also have "\<dots> = ?t" by (simp only: rev_rev_ident)
  finally have 2: "py_strip P s @ ?suf = ?t" .
  have "takeWhile P s @ py_strip P s @ ?suf = s" by (simp only: 2 1)
  then have 5: "s = takeWhile P s @ py_strip P s @ ?suf" by (rule sym)
  have 3: "\<forall>c\<in>set (takeWhile P s). P c" by (auto dest: set_takeWhileD)
  have 4: "\<forall>c\<in>set ?suf. P c" by (auto dest: set_takeWhileD)
  from 5 3 4 show ?thesis by blast
qed

lemma last_dropWhile: "dropWhile P xs \<noteq> [] \<Longrightarrow> last (dropWhile P xs) = last xs"
  by (induction xs) (auto split: if_splits)

lemma py_strip_stripped: "stripped P (py_strip P s)"
proof (cases "py_strip P s = []")
  case True
  then show ?thesis by (simp add: stripped_def)
next
  case False
  let ?t = "dropWhile P s"
  from False have ne: "dropWhile P (rev ?t) \<noteq> []" by (simp add: py_strip_def)
  have tne: "?t \<noteq> []"
  proof
    assume "?t = []"
    then have "dropWhile P (rev ?t) = []" by (simp only: rev.simps dropWhile.simps)
    with ne show False by (rule notE)
  qed
  have "last (py_strip P s) = hd (dropWhile P (rev ?t))"
    using ne by (simp add: py_strip_def last_rev)
  then have l: "\<not> P (last (py_strip P s))" using ne by (simp add: hd_dropWhile)
  have "hd (py_strip P s) = last (dropWhile P (rev ?t))"
    using ne by (simp add: py_strip_def hd_rev)
  also have "\<dots> = last (rev ?t)" using ne by (rule last_dropWhile)
  also have "\<dots> = hd ?t" using tne by (simp add: last_rev)
  finally have "\<not> P (hd (py_strip P s))" using tne by (simp add: hd_dropWhile)
  with l show ?thesis by (simp add: stripped_def)
qed

subsection \<open>From records to rows\<close>

lemma clean_row_eq:
  "clean_row d = Inr row \<Longrightarrow> row = map (\<lambda>(k, v). (k, clean_value v)) (fst d)"
  by (auto simp: clean_row_def split: option.splits)

lemma clean_rows_eq:
  "clean_rows fieldnames recs err = Inr rows \<Longrightarrow>
     rows = map (dict_row fieldnames) (filter (\<lambda>r. r \<noteq> []) recs)"
proof (induction recs arbitrary: rows)
  case Nil
  then show ?case by (simp split: option.splits)
next
  case (Cons rec recs)
  show ?case
  proof (cases "rec = []")
    case True
    with Cons show ?thesis by simp
  next
    case False
    with Cons.prems obtain r rs where
      r: "clean_row (make_dict fieldnames rec) = Inr r" and
      rs: "clean_rows fieldnames recs err = Inr rs" and rows: "rows = r # rs"
      by (auto split: sum.splits)
    from clean_row_eq [OF r] Cons.IH [OF rs] rows False show ?thesis
      by (simp add: dict_row_def)
  qed
qed

lemma parse_rows_eq:
  assumes "parse_rows data = Inr rows" and "csv_records data = (fieldnames # recs, err)"
  shows "rows = map (dict_row fieldnames) (filter (\<lambda>r. r \<noteq> []) recs)"
  using assms clean_rows_eq [of fieldnames recs err rows] by (simp add: parse_rows_def)

lemma clean_rows_long:
  "\<exists>rec\<in>set recs. length fieldnames < length rec \<Longrightarrow>
     clean_rows fieldnames recs err = Inl AttributeError"
proof (induction recs)
  case Nil
  then show ?case by simp
next
  case (Cons rec recs)
  show ?case
  proof (cases "length fieldnames < length rec")
    case True
    then have "rec \<noteq> []" by auto
    with True show ?thesis by (simp add: clean_row_def make_dict_def Let_def)
  next
    case False
    with Cons.prems have "\<exists>rec\<in>set recs. length fieldnames < length rec" by auto
    then have IH: "clean_rows fieldnames recs err = Inl AttributeError" by (rule Cons.IH)
    show ?thesis
    proof (cases "rec = []")
      case True
      with IH show ?thesis by simp
    next
      case ne: False
      from False have "snd (make_dict fieldnames rec) = None"
        by (simp add: make_dict_def Let_def)
      then have "clean_row (make_dict fieldnames rec) = Inr (dict_row fieldnames rec)"
        by (simp add: clean_row_def dict_row_def)
      with ne IH show ?thesis by simp
    qed
  qed
qed

lemma clean_rows_short:
  "\<forall>rec\<in>set recs. length rec \<le> length fieldnames \<Longrightarrow>
     clean_rows fieldnames recs None = Inr (map (dict_row fieldnames) (filter (\<lambda>r. r \<noteq> []) recs))"
proof (induction recs)
  case Nil
  then show ?case by simp
next
  case (Cons rec recs)
  then have IH: "clean_rows fieldnames recs None =
      Inr (map (dict_row fieldnames) (filter (\<lambda>r. r \<noteq> []) recs))" by simp
  from Cons.prems have "snd (make_dict fieldnames rec) = None"
    by (simp add: make_dict_def Let_def)
  then have "clean_row (make_dict fieldnames rec) = Inr (dict_row fieldnames rec)"
    by (simp add: clean_row_def dict_row_def)
  with IH show ?case by simp
qed

lemma map_of_fold_update_other:
  "k \<notin> set ks \<Longrightarrow> map_of (fold (\<lambda>k. AList.update k c) ks al) k = map_of al k"
  by (induction ks arbitrary: al) (auto simp: update_conv')

lemma map_of_fold_update_const:
  "k \<in> set ks \<Longrightarrow> map_of (fold (\<lambda>k. AList.update k c) ks al) k = Some c"
proof (induction ks arbitrary: al)
  case Nil
  then show ?case by simp
next
  case (Cons k' ks)
  show ?case
  proof (cases "k \<in> set ks")
    case True
    then show ?thesis using Cons.IH [of "AList.update k' c al"] by simp
  next
    case False
    with Cons.prems have "k = k'" by simp
    with False show ?thesis by (simp add: map_of_fold_update_other update_conv')
  qed
qed

lemma map_of_clean: "map_of (map (\<lambda>(k, v). (k, f v)) al) k = map_option f (map_of al k)"
  by (induction al) auto

lemma dict_row_missing:
  assumes "k \<in> set (drop (length rec) fieldnames)"
  shows "map_of (dict_row fieldnames rec) k = Some None"
proof -
  from assms have lt: "length rec < length fieldnames"
    by (cases "length rec < length fieldnames") auto
  then have "map_of (fst (make_dict fieldnames rec)) k = Some None"
    using assms by (simp add: make_dict_def Let_def map_of_fold_update_const)
  then show ?thesis by (simp add: dict_row_def map_of_clean clean_value_def)
qed

lemma short_records:
  "csv_records ''a,value\<newline>1'' = ([[''a'', ''value''], [''1'']], None)"
  by (simp add: parse_eval)

lemma long_records:
  "csv_records ''a,value\<newline>1,2,3'' = ([[''a'', ''value''], [''1'', ''2'', ''3'']], None)"
  by (simp add: parse_eval)

subsection \<open>The scan of the average and its specification\<close>

lemma map_of_prepare: "map_of (prepare search) k = map_option py_str (map_of search k)"
  by (simp add: prepare_def map_of_clean)

lemma row_match_spec:
  assumes "set keys \<subseteq> fst ` set row" and "set keys \<subseteq> fst ` set search"
  shows "row_match row (prepare search) keys = Inr (spec_matches keys row search)"
  using assms
proof (induction keys)
  case Nil
  then show ?case by (simp add: spec_matches_def)
next
  case (Cons k keys)
  from Cons.prems obtain a b where a: "map_of row k = Some a" and b: "map_of search k = Some b"
    using map_of_has_key [of k row] map_of_has_key [of k search] by auto
  from Cons have IH: "row_match row (prepare search) keys = Inr (spec_matches keys row search)"
    by simp
  show ?case using a b IH by (auto simp: spec_matches_def map_of_prepare)
qed

lemma scan_rows_spec:
  assumes "\<forall>row\<in>set rows. set keys \<subseteq> fst ` set row \<and> ''value'' \<in> fst ` set row"
      and "set keys \<subseteq> fst ` set search"
  shows "scan_rows keys (prepare search) rows acc =
     (case first_match keys rows search of
        None \<Rightarrow> Inr acc
      | Some row \<Rightarrow>
          (case py_int (the (map_of row ''value'')) of
             Inl e \<Rightarrow> Inl e
           | Inr val \<Rightarrow> Inr (fst acc + val * weight_of val, snd acc + weight_of val)))"
  using assms
proof (induction rows)
  case Nil
  then show ?case by (simp add: first_match_def)
next
  case (Cons row rows)
  from Cons.prems have m: "row_match row (prepare search) keys = Inr (spec_matches keys row search)"
    by (intro row_match_spec) auto
  from Cons.prems obtain v where v: "map_of row ''value'' = Some v"
    using map_of_has_key [of "''value''" row] by auto
  from Cons have IH: "scan_rows keys (prepare search) rows acc =
     (case first_match keys rows search of
        None \<Rightarrow> Inr acc
      | Some row \<Rightarrow>
          (case py_int (the (map_of row ''value'')) of
             Inl e \<Rightarrow> Inl e
           | Inr val \<Rightarrow> Inr (fst acc + val * weight_of val, snd acc + weight_of val)))"
    by simp
  show ?case using m v IH by (simp add: first_match_def)
qed

lemma weight_of_spec: "weight_of val = spec_weight val"
  by (simp add: weight_of_def spec_weight_def even_iff_mod_2_eq_zero)

lemma scan_queries_spec:
  assumes "\<forall>row\<in>set rows. set keys \<subseteq> fst ` set row \<and> ''value'' \<in> fst ` set row"
      and "\<forall>search\<in>set search_list. set keys \<subseteq> fst ` set search"
  shows "scan_queries keys (map prepare search_list) rows acc =
     (case matched_values keys rows search_list of
        Inl e \<Rightarrow> Inl e
      | Inr vals \<Rightarrow>
          Inr (fst acc + sum_list (map (\<lambda>val. val * spec_weight val) vals),
               snd acc + sum_list (map spec_weight vals)))"
  using assms(2)
proof (induction search_list arbitrary: acc)
  case Nil
  then show ?case by simp
next
  case (Cons search rest)
  have s: "scan_rows keys (prepare search) rows acc =
     (case first_match keys rows search of
        None \<Rightarrow> Inr acc
      | Some row \<Rightarrow>
          (case py_int (the (map_of row ''value'')) of
             Inl e \<Rightarrow> Inl e
           | Inr val \<Rightarrow> Inr (fst acc + val * weight_of val, snd acc + weight_of val)))"
    using assms(1) Cons.prems by (intro scan_rows_spec) auto
  have IH: "scan_queries keys (map prepare rest) rows acc' =
     (case matched_values keys rows rest of
        Inl e \<Rightarrow> Inl e
      | Inr vals \<Rightarrow>
          Inr (fst acc' + sum_list (map (\<lambda>val. val * spec_weight val) vals),
               snd acc' + sum_list (map spec_weight vals)))" for acc'
    using Cons.prems by (intro Cons.IH) auto
  show ?case
    by (simp add: s IH weight_of_spec split: option.splits sum.splits)
qed

lemma matched_values_set_cong:
  "set ks = set ks' \<Longrightarrow> matched_values ks rows qs = matched_values ks' rows qs"
  by (induction qs) (simp_all add: first_match_cong_set [of ks ks'] split: option.splits sum.splits)

lemma task2_rows_spec:
  assumes it: "set_iteration iter" and p: "parse_rows data = Inr rows" and ne: "rows \<noteq> []"
      and val: "''value'' \<in> set (map fst (hd rows))"
      and cov: "\<forall>search\<in>set search_list. set (key_columns rows) \<subseteq> set (map fst search)"
  shows "task2_rows iter search_list rows = spec_average (key_columns rows) search_list rows"
proof -
  from ne obtain row0 rest where rows: "rows = row0 # rest" by (cases rows) auto
  let ?ks = "iter (key_columns rows)"
  have same: "\<forall>row\<in>set rows. fst ` set row = fst ` set (hd rows)"
    using keys_parse_rows [OF p] by blast
  have si: "set ?ks = set (key_columns rows)"
    using it by (simp add: set_iteration_def)
  have sub: "set (key_columns rows) \<subseteq> fst ` set (hd rows)"
    by (auto simp: key_columns_def)
  have 1: "\<forall>row\<in>set rows. set ?ks \<subseteq> fst ` set row \<and> ''value'' \<in> fst ` set row"
    using same si sub val by auto
  have 2: "\<forall>search\<in>set search_list. set ?ks \<subseteq> fst ` set search"
    using cov si by auto
  have sq: "scan_queries ?ks (map prepare search_list) rows (0, 0) =
     (case matched_values (key_columns rows) rows search_list of
        Inl e \<Rightarrow> Inl e
      | Inr vals \<Rightarrow>
          Inr (sum_list (map (\<lambda>val. val * spec_weight val) vals), sum_list (map spec_weight vals)))"
    using scan_queries_spec [OF 1 2, of "(0, 0)"] matched_values_set_cong [OF si, of rows search_list]
    by (simp split: sum.splits)
  have "task2_rows iter search_list rows =
     (case scan_queries ?ks (map prepare search_list) rows (0, 0) of
        Inl e \<Rightarrow> Inl e
      | Inr (tv, tw) \<Rightarrow> if tw = 0 then Inr ''0.0'' else average_str tv tw)"
    using rows by (simp add: task2_rows_def key_columns_def)
  then show ?thesis
    by (simp add: sq spec_average_def Let_def split: sum.splits)
qed

subsection \<open>The shape of the formatted average\<close>








lemma two_rows:
  "parse_rows ''a,b,value\<newline>1,2,10\<newline>3,4,15\<newline>'' =
     Inr [[(''a'', Some ''1''), (''b'', Some ''2''), (''value'', Some ''10'')],
          [(''a'', Some ''3''), (''b'', Some ''4''), (''value'', Some ''15'')]]"
  by (simp add: parse_eval)

lemma two_rows_average:
  "spec_average [''a'', ''b''] [[(''a'', PyInt 1), (''b'', PyInt 2)], [(''a'', PyInt 3), (''b'', PyInt 4)]]
     [[(''a'', Some ''1''), (''b'', Some ''2''), (''value'', Some ''10'')],
      [(''a'', Some ''3''), (''b'', Some ''4''), (''value'', Some ''15'')]] = Inr ''11.7''"
  by (simp add: spec_average_def first_match_def spec_matches_def spec_weight_def int_eval str_eval
      average_350_30)

lemma set_iteration_rev: "set_iteration (\<lambda>xs. rev (remdups xs))"
  by (simp add: set_iteration_def)

subsection \<open>Queries with other keys than the key columns\<close>

lemma row_match_cong:
  "\<forall>k\<in>set keys. map_of s k = map_of s' k \<Longrightarrow> row_match row s keys = row_match row s' keys"
  by (induction keys) (auto split: option.splits)

lemma scan_rows_cong:
  "\<forall>k\<in>set keys. map_of s k = map_of s' k \<Longrightarrow> scan_rows keys s rows acc = scan_rows keys s' rows acc"
proof (induction rows)
  case Nil
  then show ?case by simp
next
  case (Cons row rows)
  then have m: "row_match row s keys = row_match row s' keys"
    and r: "scan_rows keys s rows acc = scan_rows keys s' rows acc"
    by (simp_all add: row_match_cong [of keys s s'])
  show ?case by (simp only: scan_rows.simps m r)
qed

lemma map_of_filter_keys:
  "map_of (filter (\<lambda>(k, v). P k) al) k = (if P k then map_of al k else None)"
  by (induction al) auto

lemma scan_queries_restrict:
  assumes "set keys \<subseteq> K"
  shows "scan_queries keys (map prepare (map (filter (\<lambda>(k, v). k \<in> K)) search_list)) rows acc =
         scan_queries keys (map prepare search_list) rows acc"
proof (induction search_list arbitrary: acc)
  case Nil
  then show ?case by simp
next
  case (Cons search rest)
  have "\<forall>k\<in>set keys. map_of (prepare (filter (\<lambda>(k, v). k \<in> K) search)) k = map_of (prepare search) k"
    using assms by (auto simp: map_of_prepare map_of_filter_keys)
  then have sr: "scan_rows keys (prepare (filter (\<lambda>(k, v). k \<in> K) search)) rows acc =
      scan_rows keys (prepare search) rows acc"
    by (rule scan_rows_cong)
  show ?case
  proof (cases "scan_rows keys (prepare search) rows acc")
    case (Inl e)
    then show ?thesis by (simp only: list.map scan_queries.simps sr sum.case)
  next
    case (Inr acc')
    then show ?thesis by (simp only: list.map scan_queries.simps sr sum.case Cons.IH)
  qed
qed



lemma scan_rows_match:
  assumes "\<forall>row\<in>set rows. set keys \<subseteq> fst ` set row" and "set keys \<subseteq> fst ` set search"
      and "first_match keys rows search = Some row" and "map_of row ''value'' = Some v"
      and "py_int v = Inr val"
  shows "scan_rows keys (prepare search) rows acc =
     Inr (fst acc + val * weight_of val, snd acc + weight_of val)"
  using assms(1,3)
proof (induction rows)
  case Nil
  then show ?case by (simp add: first_match_def)
next
  case (Cons r rows)
  from Cons.prems(1) assms(2)
  have m: "row_match r (prepare search) keys = Inr (spec_matches keys r search)"
    by (intro row_match_spec) auto
  show ?case
  proof (cases "spec_matches keys r search")
    case True
    with Cons.prems(2) have "r = row" by (simp add: first_match_def)
    with m True assms(4,5) show ?thesis by simp
  next
    case False
    with Cons.prems(2) have "first_match keys rows search = Some row"
      by (simp add: first_match_def)
    with Cons.IH Cons.prems(1) have "scan_rows keys (prepare search) rows acc =
        Inr (fst acc + val * weight_of val, snd acc + weight_of val)" by simp
    with m False show ?thesis by simp
  qed
qed


text \<open>What both theorems need of a parsed, non-empty table.\<close>

lemma parsed_table_keys:
  assumes "set_iteration iter" and "parse_rows data = Inr rows" and "rows \<noteq> []"
  shows "\<forall>row\<in>set rows. set (iter (key_columns rows)) \<subseteq> fst ` set row"
    and "set (iter (key_columns rows)) = set (key_columns rows)"
proof -
  show si: "set (iter (key_columns rows)) = set (key_columns rows)"
    using assms(1) by (simp add: set_iteration_def)
  have "\<forall>row\<in>set rows. fst ` set row = fst ` set (hd rows)"
    using keys_parse_rows [OF assms(2)] by blast
  moreover have "set (key_columns rows) \<subseteq> fst ` set (hd rows)"
    by (auto simp: key_columns_def)
  ultimately show "\<forall>row\<in>set rows. set (iter (key_columns rows)) \<subseteq> fst ` set row"
    using si by auto
qed

lemma task2_rows_unfold:
  "rows \<noteq> [] \<Longrightarrow> task2_rows iter search_list rows =
     (case scan_queries (iter (key_columns rows)) (map prepare search_list) rows (0, 0) of
        Inl e \<Rightarrow> Inl e
      | Inr (tv, tw) \<Rightarrow> if tw = 0 then Inr ''0.0'' else average_str tv tw)"
  by (cases rows) (simp_all add: task2_rows_def key_columns_def)


lemma tied_rows:
  "parse_rows ''a,value\<newline>1,10\<newline>1,99'' =
     Inr [[(''a'', Some ''1''), (''value'', Some ''10'')], [(''a'', Some ''1''), (''value'', Some ''99'')]]"
  by (simp add: parse_eval)

section \<open>The claims\<close>

subsection \<open>C1: the lookup returns the value of the first matching row\<close>

text \<open>
  C1. For every non-empty table parsed from a text (with a \<^verbatim>\<open>value\<close> column) and every
  query whose key set is the schema without \<^verbatim>\<open>value\<close>, \<^verbatim>\<open>task1\<close> returns the
  \<^verbatim>\<open>'value'\<close> field of the first row, in source order, whose stored string equals
  \<^verbatim>\<open>str\<close> of the query's value on every key column, and \<^verbatim>\<open>'-1'\<close> when no row does.
\<close>

theorem task1_first_match:
  assumes "set_iteration iter" and "cache_ok cache" and "parse_rows data = Inr rows"
      and "rows \<noteq> []" and "set (map fst search) = set (key_columns rows)"
      and "''value'' \<in> set (map fst (hd rows))"
  shows "fst (task1 iter search data cache) =
     (case first_match (key_columns rows) rows search of
        None \<Rightarrow> Inr (Some ''-1'')
      | Some row \<Rightarrow> Inr (the (map_of row ''value'')))"
proof -
  from load_rows_parsed [OF assms(2,3)] obtain cache' where
    "load_rows data cache = Inr (rows, cache')" by blast
  then have "fst (task1 iter search data cache) = task1_rows iter search rows"
    by (simp add: task1_def)
  with task1_rows_spec [OF assms(1,3,4,5,6)] show ?thesis by simp
qed

theorem task1_first_match_witness:
  "fst (task1 remdups [(''side'', PyStr ''IN''), (''currency'', PyStr ''EUR'')]
        ''side,currency,value\<newline>IN,PLN,1\<newline>IN,EUR,2\<newline>OUT,ANY,3'' Map.empty) = Inr (Some ''2'')
   \<and> fst (task1 remdups [(''side'', PyStr ''IN''), (''currency'', PyStr ''GBP'')]
        ''side,currency,value\<newline>IN,PLN,1\<newline>IN,EUR,2\<newline>OUT,ANY,3'' Map.empty) = Inr (Some ''-1'')
   \<and> fst (task1 remdups [(''a'', PyInt 1)] ''a,value\<newline>1,10\<newline>1,99'' Map.empty) = Inr (Some ''10'')"
  using task1_first_match [OF set_iteration_remdups cache_ok_empty example_rows,
      of "[(''side'', PyStr ''IN''), (''currency'', PyStr ''EUR'')]"]
    task1_first_match [OF set_iteration_remdups cache_ok_empty example_rows,
      of "[(''side'', PyStr ''IN''), (''currency'', PyStr ''GBP'')]"]
    task1_first_match [OF set_iteration_remdups cache_ok_empty tied_rows, of "[(''a'', PyInt 1)]"]
  by (simp add: key_columns_def first_match_def spec_matches_def insert_commute str_eval)

subsection \<open>C2: the weighted average\<close>



subsection \<open>C3: a text in the cache is not parsed again\<close>

text \<open>
  C3. Once the cache holds rows for a text, every later call of \<^verbatim>\<open>task1\<close> or
  \<^verbatim>\<open>task2\<close> with that text, in any sequence of calls, answers from those rows (whatever
  they are: the text is not parsed), and the entry stays as it is to the end; the first
  call on a text that parses stores its rows.
\<close>

theorem cache_memoizes:
  "(cache d = Some rows \<longrightarrow>
      snd (run iter calls cache) d = Some rows \<and>
      (\<forall>i<length calls. text_of (calls ! i) = d \<longrightarrow>
         fst (run iter calls cache) ! i = answer iter (calls ! i) rows)) \<and>
   (cache d = None \<and> parse_rows d = Inr rows \<and> text_of c = d \<longrightarrow>
      run_call iter c cache = (answer iter c rows, cache(d \<mapsto> rows)))"
  using run_keeps [where cache = cache and d = d and rows = rows and iter = iter and calls = calls]
    run_hits [where cache = cache and d = d and rows = rows and iter = iter and calls = calls]
    run_call_first [where c = c and cache = cache and rows = rows and iter = iter]
  by auto

theorem cache_memoizes_witness:
  "run remdups [Task1 [(''a'', PyInt 1)] ''a,value\<newline>1,10'', Task2 [[(''a'', PyInt 1)]] ''a,value\<newline>1,10'',
        Task1 [(''a'', PyInt 2)] ''a,value\<newline>1,10'']
       [''a,value\<newline>1,10'' \<mapsto> [[(''a'', Some ''1''), (''value'', Some ''10'')]]] =
     ([Out1 (Inr (Some ''10'')), Out2 (Inr ''10.0''), Out1 (Inr (Some ''-1''))],
      [''a,value\<newline>1,10'' \<mapsto> [[(''a'', Some ''1''), (''value'', Some ''10'')]]])
   \<and> run_call remdups (Task1 [(''a'', PyInt 1)] ''a,value\<newline>1,10'') Map.empty =
       (Out1 (Inr (Some ''10'')), [''a,value\<newline>1,10'' \<mapsto> [[(''a'', Some ''1''), (''value'', Some ''10'')]]])"
proof -
  let ?t = "''a,value\<newline>1,10''"
  let ?rows = "[[(''a'', Some ''1''), (''value'', Some ''10'')]]"
  let ?calls = "[Task1 [(''a'', PyInt 1)] ?t, Task2 [[(''a'', PyInt 1)]] ?t, Task1 [(''a'', PyInt 2)] ?t]"
  have r1: "task1_rows remdups [(''a'', PyInt 1)] ?rows = Inr (Some ''10'')"
    by (simp add: task1_rows_def str_eval)
  have r3: "task1_rows remdups [(''a'', PyInt 2)] ?rows = Inr (Some ''-1'')"
    by (simp add: task1_rows_def str_eval)
  have r2: "task2_rows remdups [[(''a'', PyInt 1)]] ?rows = Inr ''10.0''"
    by (simp add: task2_rows_def prepare_def int_eval str_eval average_200_20)
  from cache_memoizes [of "[?t \<mapsto> ?rows]" ?t ?rows remdups ?calls]
  have keep: "snd (run remdups ?calls [?t \<mapsto> ?rows]) ?t = Some ?rows"
    by simp
  from cache_memoizes [of Map.empty ?t ?rows remdups "[]" "Task1 [(''a'', PyInt 1)] ?t"] small_rows
  have first: "run_call remdups (Task1 [(''a'', PyInt 1)] ?t) Map.empty =
      (Out1 (task1_rows remdups [(''a'', PyInt 1)] ?rows), [?t \<mapsto> ?rows])"
    by simp
  have "run remdups ?calls [?t \<mapsto> ?rows] =
     ([Out1 (Inr (Some ''10'')), Out2 (Inr ''10.0''), Out1 (Inr (Some ''-1''))], [?t \<mapsto> ?rows])"
    by (simp add: task1_def task2_def load_rows_def r1 r2 r3)
  with first r1 keep show ?thesis by simp
qed

subsection \<open>C4: a query with the wrong key set\<close>

text \<open>
  C4. On a non-empty table, \<^verbatim>\<open>task1\<close> with a query whose key set is not the schema
  without \<^verbatim>\<open>value\<close> (a key missing, or one too many) raises the key-mismatch exception:
  it returns neither a value nor \<^verbatim>\<open>'-1'\<close>.
\<close>

theorem task1_key_mismatch:
  assumes "load_rows data cache = Inr (rows, cache')" and "rows \<noteq> []"
      and "set (map fst search) \<noteq> set (key_columns rows)"
  shows "task1 iter search data cache = (Inl KeyMismatch, cache')"
proof -
  from assms(2) obtain row0 rest where "rows = row0 # rest" by (cases rows) auto
  with assms(3) have "task1_rows iter search rows = Inl KeyMismatch"
    by (simp add: task1_rows_def key_columns_def)
  with assms(1) show ?thesis by (simp add: task1_def)
qed

theorem task1_key_mismatch_witness:
  "fst (task1 remdups [(''side'', PyStr ''IN'')]
      ''side,currency,value\<newline>IN,PLN,1\<newline>IN,EUR,2\<newline>OUT,ANY,3'' Map.empty) = Inl KeyMismatch
   \<and> fst (task1 remdups [(''side'', PyStr ''IN''), (''currency'', PyStr ''PLN''), (''extra'', PyInt 0)]
      ''side,currency,value\<newline>IN,PLN,1\<newline>IN,EUR,2\<newline>OUT,ANY,3'' Map.empty) = Inl KeyMismatch"
proof -
  let ?t = "''side,currency,value\<newline>IN,PLN,1\<newline>IN,EUR,2\<newline>OUT,ANY,3''"
  let ?rows = "[[(''side'', Some ''IN''), (''currency'', Some ''PLN''), (''value'', Some ''1'')],
          [(''side'', Some ''IN''), (''currency'', Some ''EUR''), (''value'', Some ''2'')],
          [(''side'', Some ''OUT''), (''currency'', Some ''ANY''), (''value'', Some ''3'')]]"
  have l: "load_rows ?t Map.empty = Inr (?rows, [?t \<mapsto> ?rows])"
    by (simp add: load_rows_def example_rows)
  have 1: "set (map fst [(''side'', PyStr ''IN'')]) \<noteq> set (key_columns ?rows)"
    by (simp add: key_columns_def) 
  have 2: "set (map fst [(''side'', PyStr ''IN''), (''currency'', PyStr ''PLN''), (''extra'', PyInt 0)])
      \<noteq> set (key_columns ?rows)"
  proof -
    have "''extra'' \<notin> set (key_columns ?rows)"
      by (simp add: key_columns_def)
    moreover have "''extra'' \<in> set (map fst [(''side'', PyStr ''IN''), (''currency'', PyStr ''PLN''), (''extra'', PyInt 0)])"
      by simp
    ultimately show ?thesis by blast
  qed
  from task1_key_mismatch [OF l _ 1, of remdups] task1_key_mismatch [OF l _ 2, of remdups]
  show ?thesis by simp
qed

subsection \<open>C5: records longer or shorter than the header\<close>

text \<open>
  C5, as the code has it. When some record has more fields than the header, both
  functions fail (the list of surplus fields has no \<^verbatim>\<open>strip\<close>: AttributeError) and the
  cache is left as it was. A record with fewer fields than the header is no error: when
  no record is longer and the reader raises nothing, the text parses, its rows are stored
  in the cache, and each column a record lacks is \<^verbatim>\<open>None\<close> in its row.
\<close>

theorem ragged_records:
  assumes "csv_records data = (fieldnames # recs, err)" and "cache data = None"
  shows "((\<exists>rec\<in>set recs. length fieldnames < length rec) \<longrightarrow>
            task1 iter search data cache = (Inl AttributeError, cache)
          \<and> task2 iter search_list data cache = (Inl AttributeError, cache))
       \<and> (err = None \<and> (\<forall>rec\<in>set recs. length rec \<le> length fieldnames) \<longrightarrow>
            load_rows data cache =
              Inr (map (dict_row fieldnames) (filter (\<lambda>r. r \<noteq> []) recs),
                   cache(data \<mapsto> map (dict_row fieldnames) (filter (\<lambda>r. r \<noteq> []) recs)))
          \<and> (\<forall>rec\<in>set recs. \<forall>k\<in>set (drop (length rec) fieldnames).
                map_of (dict_row fieldnames rec) k = Some None))"
proof -
  have p: "parse_rows data = clean_rows fieldnames recs err"
    using assms(1) by (simp add: parse_rows_def)
  have long: "task1 iter search data cache = (Inl AttributeError, cache)
          \<and> task2 iter search_list data cache = (Inl AttributeError, cache)"
    if "\<exists>rec\<in>set recs. length fieldnames < length rec"
  proof -
    from that have "parse_rows data = Inl AttributeError"
      using p by (simp add: clean_rows_long)
    with assms(2) have "load_rows data cache = Inl AttributeError"
      by (simp add: load_rows_def)
    then show ?thesis by (simp add: task1_def task2_def)
  qed
  have short: "load_rows data cache =
              Inr (map (dict_row fieldnames) (filter (\<lambda>r. r \<noteq> []) recs),
                   cache(data \<mapsto> map (dict_row fieldnames) (filter (\<lambda>r. r \<noteq> []) recs)))"
    if "err = None" and "\<forall>rec\<in>set recs. length rec \<le> length fieldnames"
  proof -
    from that have "parse_rows data = Inr (map (dict_row fieldnames) (filter (\<lambda>r. r \<noteq> []) recs))"
      using p by (simp add: clean_rows_short)
    with assms(2) show ?thesis by (simp add: load_rows_def)
  qed
  from long short dict_row_missing show ?thesis by blast
qed

theorem ragged_records_counterexample:
  "map length (fst (csv_records ''a,value\<newline>1'')) = [2, 1]
   \<and> parse_rows ''a,value\<newline>1'' = Inr [[(''a'', Some ''1''), (''value'', None)]]
   \<and> task1 remdups [(''a'', PyInt 1)] ''a,value\<newline>1'' Map.empty =
        (Inr None, [''a,value\<newline>1'' \<mapsto> [[(''a'', Some ''1''), (''value'', None)]]])"
  by (simp add: short_records parse_rows_def make_dict_def clean_row_def clean_value_def
      py_strip_def py_isspace_def quote_chars_def task1_def load_rows_def task1_rows_def str_eval)

theorem ragged_records_witness:
  "task1 remdups [(''a'', PyInt 1)] ''a,value\<newline>1,2,3'' Map.empty = (Inl AttributeError, Map.empty)
   \<and> task2 remdups [[(''a'', PyInt 1)]] ''a,value\<newline>1,2,3'' Map.empty = (Inl AttributeError, Map.empty)
   \<and> load_rows ''a,value\<newline>1'' Map.empty =
        Inr ([[(''a'', Some ''1''), (''value'', None)]],
             [''a,value\<newline>1'' \<mapsto> [[(''a'', Some ''1''), (''value'', None)]]])
   \<and> map_of (dict_row [''a'', ''value''] [''1'']) ''value'' = Some None"
  using ragged_records [OF long_records, of Map.empty remdups "[(''a'', PyInt 1)]" "[[(''a'', PyInt 1)]]"]
    ragged_records [OF short_records, of Map.empty remdups "[(''a'', PyInt 1)]" "[[(''a'', PyInt 1)]]"]
  by (simp add: dict_row_def make_dict_def clean_value_def py_strip_def py_isspace_def
      quote_chars_def)

subsection \<open>C6: the example of the documentation\<close>

text \<open>
  C6, as the code has it. For the table text \<^verbatim>\<open>"a,b,value\n1,2,10\n3,4,15\n"\<close> and the
  queries \<^verbatim>\<open>[{"a": 1, "b": 2}, {"a": 3, "b": 4}]\<close>, \<^verbatim>\<open>task2\<close> returns \<^verbatim>\<open>'11.7'\<close>, which is
  (10 * 20 + 15 * 10) / 30 to one decimal (and stores the two rows in the cache), not
  \<^verbatim>\<open>'12.5'\<close>.
\<close>

theorem docstring_example:
  assumes "set_iteration iter"
  shows "task2 iter [[(''a'', PyInt 1), (''b'', PyInt 2)], [(''a'', PyInt 3), (''b'', PyInt 4)]]
      ''a,b,value\<newline>1,2,10\<newline>3,4,15\<newline>'' Map.empty =
    (Inr ''11.7'',
     [''a,b,value\<newline>1,2,10\<newline>3,4,15\<newline>'' \<mapsto>
        [[(''a'', Some ''1''), (''b'', Some ''2''), (''value'', Some ''10'')],
         [(''a'', Some ''3''), (''b'', Some ''4''), (''value'', Some ''15'')]]])"
proof -
  let ?rows = "[[(''a'', Some ''1''), (''b'', Some ''2''), (''value'', Some ''10'')],
         [(''a'', Some ''3''), (''b'', Some ''4''), (''value'', Some ''15'')]]"
  let ?qs = "[[(''a'', PyInt 1), (''b'', PyInt 2)], [(''a'', PyInt 3), (''b'', PyInt 4)]]"
  have k: "key_columns ?rows = [''a'', ''b'']" by (simp add: key_columns_def)
  have "task2_rows iter ?qs ?rows = spec_average (key_columns ?rows) ?qs ?rows"
    by (rule task2_rows_spec [OF assms two_rows]) (simp_all add: k)
  then have "task2_rows iter ?qs ?rows = Inr ''11.7''"
    by (simp add: k two_rows_average)
  then show ?thesis by (simp add: task2_def load_rows_def two_rows)
qed

theorem docstring_example_counterexample:
  "fst (task2 remdups [[(''a'', PyInt 1), (''b'', PyInt 2)], [(''a'', PyInt 3), (''b'', PyInt 4)]]
      ''a,b,value\<newline>1,2,10\<newline>3,4,15\<newline>'' Map.empty) \<noteq> Inr ''12.5''
   \<and> fst (task2 (\<lambda>xs. rev (remdups xs)) [[(''a'', PyInt 1), (''b'', PyInt 2)], [(''a'', PyInt 3), (''b'', PyInt 4)]]
      ''a,b,value\<newline>1,2,10\<newline>3,4,15\<newline>'' Map.empty) \<noteq> Inr ''12.5''"
  by (simp add: task2_def load_rows_def two_rows task2_rows_def prepare_def int_eval str_eval
      average_350_30)

theorem docstring_example_witness:
  "fst (task2 (\<lambda>xs. rev (remdups xs)) [[(''a'', PyInt 1), (''b'', PyInt 2)], [(''a'', PyInt 3), (''b'', PyInt 4)]]
      ''a,b,value\<newline>1,2,10\<newline>3,4,15\<newline>'' Map.empty) = Inr ''11.7''"
  using docstring_example [OF set_iteration_rev] by simp

subsection \<open>C7: queries whose keys are not the key columns\<close>




subsection \<open>C8: the empty table\<close>

text \<open>
  C8. When the table has no rows, \<^verbatim>\<open>task1\<close> returns \<^verbatim>\<open>'-1'\<close> and \<^verbatim>\<open>task2\<close> returns
  \<^verbatim>\<open>'0.0'\<close>, whatever the queries' keys are.
\<close>

theorem empty_table:
  assumes "load_rows data cache = Inr ([], cache')"
  shows "task1 iter search data cache = (Inr (Some ''-1''), cache')
       \<and> task2 iter search_list data cache = (Inr ''0.0'', cache')"
  using assms by (simp add: task1_def task2_def task1_rows_def task2_rows_def)

theorem empty_table_witness:
  "task1 remdups [(''nokey'', PyInt 1)] ''side,currency,value\<newline>'' Map.empty =
      (Inr (Some ''-1''), [''side,currency,value\<newline>'' \<mapsto> []])
   \<and> task2 remdups [[], [(''nokey'', PyInt 1)]] ''side,currency,value\<newline>'' Map.empty =
      (Inr ''0.0'', [''side,currency,value\<newline>'' \<mapsto> []])"
proof -
  have "load_rows ''side,currency,value\<newline>'' Map.empty = Inr ([], [''side,currency,value\<newline>'' \<mapsto> []])"
    by (simp add: load_rows_def header_only_rows)
  from empty_table [OF this] show ?thesis by simp
qed

subsection \<open>C9: how a field is cleaned\<close>

text \<open>
  C9. Every field of every parsed row is the cleaned field of the reader's dictionary:
  an absent field (\<^verbatim>\<open>None\<close>) stays absent; a present one loses its leading and trailing
  white space first, and then every leading and trailing quote character (single or
  double) of what is left, in one pass: white space that the quotes enclosed stays.
\<close>

theorem field_normalised:
  "(parse_rows data = Inr rows \<and> csv_records data = (fieldnames # recs, err) \<longrightarrow>
      rows = map (\<lambda>rec. map (\<lambda>(k, v). (k, clean_value v)) (fst (make_dict fieldnames rec)))
               (filter (\<lambda>r. r \<noteq> []) recs))
   \<and> clean_value None = None
   \<and> (\<exists>t ws1 q1 q2 ws2.
        clean_value (Some s) = Some t \<and> s = ws1 @ q1 @ t @ q2 @ ws2
        \<and> (\<forall>c\<in>set (ws1 @ ws2). py_isspace c) \<and> stripped py_isspace (q1 @ t @ q2)
        \<and> (\<forall>c\<in>set (q1 @ q2). is_quote c) \<and> stripped is_quote t)"
proof -
  let ?u = "py_strip py_isspace s"
  let ?t = "py_strip is_quote ?u"
  obtain ws1 ws2 where ws: "s = ws1 @ ?u @ ws2" "\<forall>c\<in>set ws1. py_isspace c" "\<forall>c\<in>set ws2. py_isspace c"
    using py_strip_decomp [of s py_isspace] by blast
  obtain q1 q2 where q: "?u = q1 @ ?t @ q2" "\<forall>c\<in>set q1. is_quote c" "\<forall>c\<in>set q2. is_quote c"
    using py_strip_decomp [of ?u is_quote] by blast
  have c: "clean_value (Some s) = Some ?t"
    by (simp add: clean_value_def is_quote_def [abs_def])
  have su: "stripped py_isspace (q1 @ ?t @ q2)"
    by (simp only: q(1) [symmetric] py_strip_stripped)
  have st: "stripped is_quote ?t" by (rule py_strip_stripped)
  have "ws1 @ q1 @ ?t @ q2 @ ws2 = ws1 @ (q1 @ ?t @ q2) @ ws2" by (simp only: append_assoc)
  also have "\<dots> = ws1 @ ?u @ ws2" by (simp only: q(1) [symmetric])
  finally have s: "s = ws1 @ q1 @ ?t @ q2 @ ws2" using ws(1) by (simp only:)
  have wsall: "\<forall>c\<in>set (ws1 @ ws2). py_isspace c" using ws(2,3) by auto
  have qall: "\<forall>c\<in>set (q1 @ q2). is_quote c" using q(2,3) by auto
  have "clean_value (Some s) = Some ?t \<and> s = ws1 @ q1 @ ?t @ q2 @ ws2
        \<and> (\<forall>c\<in>set (ws1 @ ws2). py_isspace c) \<and> stripped py_isspace (q1 @ ?t @ q2)
        \<and> (\<forall>c\<in>set (q1 @ q2). is_quote c) \<and> stripped is_quote ?t"
    by (intro conjI c s wsall su qall st)
  then have "\<exists>t ws1 q1 q2 ws2.
        clean_value (Some s) = Some t \<and> s = ws1 @ q1 @ t @ q2 @ ws2
        \<and> (\<forall>c\<in>set (ws1 @ ws2). py_isspace c) \<and> stripped py_isspace (q1 @ t @ q2)
        \<and> (\<forall>c\<in>set (q1 @ q2). is_quote c) \<and> stripped is_quote t"
    by (intro exI)
  moreover have "clean_value None = None" by (simp add: clean_value_def)
  moreover have "parse_rows data = Inr rows \<and> csv_records data = (fieldnames # recs, err) \<longrightarrow>
      rows = map (\<lambda>rec. map (\<lambda>(k, v). (k, clean_value v)) (fst (make_dict fieldnames rec)))
               (filter (\<lambda>r. r \<noteq> []) recs)"
    using parse_rows_eq [of data rows fieldnames recs err] by (simp add: dict_row_def [abs_def])
  ultimately show ?thesis by blast
qed

theorem field_normalised_witness:
  "clean_value (Some ([CHR 0x20, CHR 0x22, CHR 0x27] @ '' a '' @ [CHR 0x27, CHR 0x22, CHR 0x09])) = Some '' a ''
   \<and> parse_rows (''a,b,c\<newline> '' @ [CHR 0x27] @ ''x'' @ [CHR 0x27] @ '' ,y'') =
       Inr [[(''a'', Some ''x''), (''b'', Some ''y''), (''c'', None)]]"
  using field_normalised [of "''a,b,c\<newline> '' @ [CHR 0x27] @ ''x'' @ [CHR 0x27] @ '' ,y''"
      "[[(''a'', Some ''x''), (''b'', Some ''y''), (''c'', None)]]" "[''a'', ''b'', ''c'']"
      "[['' '' @ [CHR 0x27] @ ''x'' @ [CHR 0x27] @ '' '', ''y'']]" None
      "[CHR 0x20, CHR 0x22, CHR 0x27] @ '' a '' @ [CHR 0x27, CHR 0x22, CHR 0x09]"]
  by (simp add: parse_eval)

subsection \<open>C10: only the key columns are compared\<close>

text \<open>
  C10. On a non-empty parsed table, \<^verbatim>\<open>task2\<close> reads a query at the key columns only:
  dropping every other key from every query changes nothing; and a query that has all
  key columns and agrees with some row on each of them matches its first such row and
  contributes that row's integer with its weight, whatever other keys it holds.
\<close>

theorem task2_key_columns_only:
  assumes "set_iteration iter" and "cache_ok cache" and "parse_rows data = Inr rows"
      and "rows \<noteq> []"
  shows "task2 iter search_list data cache =
           task2 iter (map (filter (\<lambda>(k, v). k \<in> set (key_columns rows))) search_list) data cache
       \<and> (set (key_columns rows) \<subseteq> set (map fst search)
            \<and> first_match (key_columns rows) rows search = Some row
            \<and> map_of row ''value'' = Some v \<and> py_int v = Inr val \<longrightarrow>
          fst (task2 iter [search] data cache) = average_str (val * weight_of val) (weight_of val))"
proof -
  let ?ks = "iter (key_columns rows)"
  from load_rows_parsed [OF assms(2,3)] obtain cache' where
    l: "load_rows data cache = Inr (rows, cache')" by blast
  have t: "task2 iter qs data cache = (task2_rows iter qs rows, cache')" for qs
    using l by (simp add: task2_def)
  note keys = parsed_table_keys [OF assms(1,3,4)]
  have "set ?ks \<subseteq> set (key_columns rows)" using keys(2) by simp
  then have "scan_queries ?ks
        (map prepare (map (filter (\<lambda>(k, v). k \<in> set (key_columns rows))) search_list)) rows (0, 0) =
      scan_queries ?ks (map prepare search_list) rows (0, 0)"
    by (rule scan_queries_restrict)
  then have "task2_rows iter (map (filter (\<lambda>(k, v). k \<in> set (key_columns rows))) search_list) rows =
      task2_rows iter search_list rows"
    by (simp only: task2_rows_unfold [OF assms(4)])
  then have restrict: "task2 iter search_list data cache =
      task2 iter (map (filter (\<lambda>(k, v). k \<in> set (key_columns rows))) search_list) data cache"
    by (simp only: t)
  have contributes: "fst (task2 iter [search] data cache) = average_str (val * weight_of val) (weight_of val)"
    if cov: "set (key_columns rows) \<subseteq> set (map fst search)"
      and fm: "first_match (key_columns rows) rows search = Some row"
      and v: "map_of row ''value'' = Some v" and i: "py_int v = Inr val"
  proof -
    have "first_match ?ks rows search = Some row"
      using fm first_match_cong_set [OF keys(2), of rows search] by simp
    moreover have "set ?ks \<subseteq> fst ` set search" using cov keys(2) by simp
    ultimately have "scan_rows ?ks (prepare search) rows (0, 0) =
        Inr (fst (0, 0) + val * weight_of val, snd (0, 0) + weight_of val)"
      using scan_rows_match [OF keys(1) _ _ v i, of search "(0, 0)"] by simp
    then have "task2_rows iter [search] rows = average_str (val * weight_of val) (weight_of val)"
      by (simp add: task2_rows_unfold [OF assms(4)] weight_of_def)
    then show ?thesis by (simp add: t)
  qed
  from restrict contributes show ?thesis by blast
qed

theorem task2_key_columns_only_witness:
  "fst (task2 remdups [[(''zz'', PyStr ''junk''), (''a'', PyInt 1), (''b'', PyInt 2), (''value'', PyInt 0)]]
        ''a,b,value\<newline>1,2,10\<newline>3,4,15\<newline>'' Map.empty) = Inr ''10.0''
   \<and> task2 remdups [[(''zz'', PyStr ''junk''), (''a'', PyInt 1), (''b'', PyInt 2), (''value'', PyInt 0)]]
        ''a,b,value\<newline>1,2,10\<newline>3,4,15\<newline>'' Map.empty
     = task2 remdups [[(''a'', PyInt 1), (''b'', PyInt 2)]] ''a,b,value\<newline>1,2,10\<newline>3,4,15\<newline>'' Map.empty"
  using task2_key_columns_only [OF set_iteration_remdups cache_ok_empty two_rows,
      of "[[(''zz'', PyStr ''junk''), (''a'', PyInt 1), (''b'', PyInt 2), (''value'', PyInt 0)]]"
        "[(''zz'', PyStr ''junk''), (''a'', PyInt 1), (''b'', PyInt 2), (''value'', PyInt 0)]"
        "[(''a'', Some ''1''), (''b'', Some ''2''), (''value'', Some ''10'')]" "Some ''10''" 10]
    average_200_20
  by (simp add: key_columns_def first_match_def spec_matches_def str_eval int_eval
      task2_def load_rows_def two_rows task2_rows_def prepare_def)

end
